theory Spec2Isabelle
  imports Main
begin

section \<open>Converter classes (printing/converter.py)\<close>

text \<open>
  The module declares three concrete converter classes. Their class attributes
  \<open>supported_types\<close>, \<open>supported_extensions\<close> and \<open>output_type\<close> are functions of the class.
\<close>

datatype converter = ImageConverter | DocConverter | PDFConverter

fun supported_types :: "converter \<Rightarrow> string list" where
  "supported_types ImageConverter = [''image/png'', ''image/jpeg'']"
| "supported_types PDFConverter = [''application/pdf'']"
| "supported_types DocConverter =
     [''application/msword'',
      ''application/vnd.openxmlformats-officedocument.wordprocessing'',
      ''application/rtf'',
      ''application/vnd.oasis.opendocument.text'']"

fun supported_extensions :: "converter \<Rightarrow> string list" where
  "supported_extensions ImageConverter = [''png'', ''jpg'', ''jpeg'']"
| "supported_extensions PDFConverter = [''pdf'']"
| "supported_extensions DocConverter = [''doc'', ''docx'', ''rtf'', ''odt'']"

fun output_type :: "converter \<Rightarrow> string" where
  "output_type ImageConverter = ''application/pdf''"
| "output_type PDFConverter = ''gutenberg/pdf''"
| "output_type DocConverter = ''application/pdf''"

text \<open>
  What the module reads from its host: \<open>shutil.which\<close>, the libmagic detector
  \<open>Magic(mime=True).from_file\<close> (\<open>None\<close> when it raises), the outcome of
  \<open>subprocess.check_call\<close> (given the calls made before it and its argument vector),
  and the directory \<open>BASE_DIR\<close> computed from the module's location.
\<close>

record host =
  which :: "string \<Rightarrow> string option"
  from_file :: "string \<Rightarrow> string option"
  check_call :: "string list list \<Rightarrow> string list \<Rightarrow> bool"
  BASE_DIR :: string

text \<open>
  The exceptions that can leave the module. \<open>NoConverterAvailableError\<close> is raised with a
  message formatted from \<open>input_type\<close> and \<open>output_types\<close>; the model keeps the two values.
  \<open>CalledProcessError\<close> comes from \<open>subprocess.check_call\<close>, \<open>KeyError\<close> from a dictionary
  read, \<open>MagicException\<close> from the content-type detector.
\<close>

datatype error =
    NoConverterAvailableError string "string set"
  | CalledProcessError "string list"
  | KeyError string
  | MagicException string

definition binary_exists :: "host \<Rightarrow> string \<Rightarrow> bool" where
  "binary_exists h name = (which h name \<noteq> None)"

fun is_available :: "host \<Rightarrow> converter \<Rightarrow> bool" where
  "is_available h ImageConverter = binary_exists h ''convert''"
| "is_available h PDFConverter = binary_exists h ''gs''"
| "is_available h DocConverter = binary_exists h ''unoconv''"

definition CONVERTERS_ALL :: "converter list" where
  "CONVERTERS_ALL = [ImageConverter, DocConverter, PDFConverter]"

definition CONVERTERS :: "host \<Rightarrow> converter list" where
  "CONVERTERS h = filter (is_available h) CONVERTERS_ALL"

section \<open>Pipeline resolution\<close>

text \<open>
  \<open>converters_for_type\<close> is a \<open>defaultdict(list)\<close>: a missing key reads as the empty list.
\<close>

definition converters_for_type :: "converter list \<Rightarrow> string \<Rightarrow> converter list" where
  "converters_for_type convs =
     fold (\<lambda>conv d. fold (\<lambda>mime d. d(mime := d mime @ [conv])) (supported_types conv) d)
       convs (\<lambda>_. [])"

text \<open>
  The dictionary \<open>reverse\<close> keeps its keys in insertion order; it is an association list
  that is only ever extended at the end, with a key that is not yet present.
\<close>

type_synonym reverse_map = "(string \<times> (string \<times> converter)) list"

text \<open>
  The \<open>for conv in converters_for_type[v]\<close> loop. The flag tells that the loop left the
  enclosing function through \<open>return\<close>.
\<close>

fun bfs_for :: "string set \<Rightarrow> string \<Rightarrow> converter list \<Rightarrow> reverse_map \<Rightarrow> string list
    \<Rightarrow> bool \<times> reverse_map \<times> string list" where
  "bfs_for output_types v [] reverse queue = (False, reverse, queue)"
| "bfs_for output_types v (conv # convs) reverse queue =
     (let u = output_type conv;
          (reverse', queue') =
            (if map_of reverse u = None
             then (reverse @ [(u, (v, conv))], queue @ [u])
             else (reverse, queue))
      in if u \<in> output_types then (True, reverse', queue')
         else bfs_for output_types v convs reverse' queue')"

definition bfs_measure :: "reverse_map \<Rightarrow> string list \<Rightarrow> nat" where
  "bfs_measure reverse queue =
     2 * card (range output_type - fst ` set reverse) + length queue"

lemma finite_range_output_type: "finite (range output_type)"
proof -
  have "(UNIV :: converter set) = {ImageConverter, DocConverter, PDFConverter}"
    using converter.exhaust by auto
  then have "finite (UNIV :: converter set)"
    by (metis finite.emptyI finite.insertI)
  then show ?thesis by simp
qed

lemma bfs_for_measure:
  "bfs_for S v cs rv q = (d, rv', q') \<Longrightarrow> bfs_measure rv' q' \<le> bfs_measure rv q"
proof (induction cs arbitrary: rv q)
  case Nil
  then show ?case by simp
next
  case (Cons c cs)
  let ?u = "output_type c"
  show ?case
  proof (cases "map_of rv ?u = None")
    case False
    with Cons show ?thesis
      by (auto simp: Let_def split: if_splits)
  next
    case True
    then have notin: "?u \<notin> fst ` set rv"
      by (simp add: map_of_eq_None_iff)
    have "range output_type - fst ` set (rv @ [(?u, (v, c))])
          = (range output_type - fst ` set rv) - {?u}"
      by auto
    moreover have "?u \<in> range output_type - fst ` set rv"
      using notin by simp
    moreover have "finite (range output_type - fst ` set rv)"
      using finite_range_output_type by simp
    ultimately have "Suc (card (range output_type - fst ` set (rv @ [(?u, (v, c))])))
          = card (range output_type - fst ` set rv)"
      by (metis card_Suc_Diff1)
    then have step: "bfs_measure (rv @ [(?u, (v, c))]) (q @ [?u]) \<le> bfs_measure rv q"
      by (simp add: bfs_measure_def)
    show ?thesis
    proof (cases "?u \<in> S")
      case True
      with \<open>map_of rv ?u = None\<close> Cons.prems step show ?thesis
        by (auto simp: Let_def)
    next
      case False
      with \<open>map_of rv ?u = None\<close> Cons.prems
      have "bfs_for S v cs (rv @ [(?u, (v, c))]) (q @ [?u]) = (d, rv', q')"
        by (simp add: Let_def)
      from Cons.IH [OF this] step show ?thesis by simp
    qed
  qed
qed

text \<open>
  The \<open>while len(queue) > 0\<close> loop of the inner function \<open>bfs\<close>. \<open>queue.pop()\<close> takes the
  right end of the deque, the end \<open>queue.append\<close> adds to.
\<close>

function bfs_while :: "(string \<Rightarrow> converter list) \<Rightarrow> string set \<Rightarrow> reverse_map \<Rightarrow> string list
    \<Rightarrow> reverse_map" where
  "bfs_while cft output_types reverse queue =
     (if queue = [] then reverse
      else (case bfs_for output_types (last queue) (cft (last queue)) reverse (butlast queue) of
              (returned, reverse', queue') \<Rightarrow>
                if returned then reverse' else bfs_while cft output_types reverse' queue'))"
  by pat_completeness auto
termination
proof (relation "measure (\<lambda>(cft, S, rv, q). bfs_measure rv q)", goal_cases)
  case 1
  show ?case by simp
next
  case (2 cft output_types reverse queue returned rq reverse' queue')
  then have "bfs_for output_types (last queue) (cft (last queue)) reverse (butlast queue)
      = (returned, reverse', queue')" by simp
  from bfs_for_measure [OF this]
  have "bfs_measure reverse' queue' \<le> bfs_measure reverse (butlast queue)" .
  also have "\<dots> < bfs_measure reverse queue"
    using 2(1) by (simp add: bfs_measure_def)
  finally show ?case by simp
qed

declare bfs_while.simps [simp del]

text \<open>
  The \<open>while v != input_type\<close> loop that walks the predecessor links back.
  \<open>reverse[v]\<close> raises \<open>KeyError\<close> on a missing key, and nothing in the loop itself bounds
  the number of iterations: not returning is the value \<open>None\<close>.
  \<open>pipeline.appendleft(conv)\<close> puts \<open>conv\<close> in front.
\<close>

partial_function (option) chain_while :: "reverse_map \<Rightarrow> string \<Rightarrow> string \<Rightarrow> converter list
    \<Rightarrow> (error + converter list) option" where
  "chain_while reverse input_type v pipeline =
     (if v = input_type then Some (Inr pipeline)
      else (case map_of reverse v of
              None \<Rightarrow> Some (Inl (KeyError v))
            | Some (v', conv) \<Rightarrow> chain_while reverse input_type v' (conv # pipeline)))"

declare chain_while.simps [code]

text \<open>
  \<open>get_converter_chain\<close> reads the module-level list \<open>CONVERTERS\<close>; it is the first argument.
  \<open>intersect\<close> lists the members of \<open>output_types & reverse.keys()\<close> in the key order of
  \<open>reverse\<close>, and \<open>next(iter(intersect))\<close> is modelled by its head. Lemma
  \<open>intersect_at_most_one\<close> below shows that the set never has two members, so the
  iteration order of the Python set is immaterial.
\<close>

definition get_converter_chain :: "converter list \<Rightarrow> string \<Rightarrow> string set
    \<Rightarrow> (error + converter list) option" where
  "get_converter_chain convs input_type output_types =
     (let reverse = bfs_while (converters_for_type convs) output_types [] [input_type];
          intersect = filter (\<lambda>u. u \<in> output_types) (map fst reverse)
      in if intersect = []
         then Some (Inl (NoConverterAvailableError input_type output_types))
         else chain_while reverse input_type (hd intersect) [])"

section \<open>Running converters\<close>

text \<open>\<open>os.path.join\<close> of two components (posixpath).\<close>

definition path_join :: "string \<Rightarrow> string \<Rightarrow> string" where
  "path_join a b =
     (if b \<noteq> [] \<and> hd b = CHR ''/'' then b
      else if a = [] \<or> last a = CHR ''/'' then a @ b
      else a @ ''/'' @ b)"

definition SANDBOX_PATH :: "host \<Rightarrow> string" where
  "SANDBOX_PATH h = path_join (BASE_DIR h) ''sandbox.sh''"

text \<open>
  The state threaded through the converters is the list of argument vectors handed to
  \<open>subprocess.check_call\<close> so far. \<open>check_call\<close> raises \<open>CalledProcessError\<close> when the
  command does not exit with status zero.
\<close>

type_synonym calls = "string list list"

definition run_in_sandbox :: "host \<Rightarrow> string \<Rightarrow> string list \<Rightarrow> calls \<Rightarrow> (error + unit) \<times> calls" where
  "run_in_sandbox h work_dir command log =
     (let argv = [SANDBOX_PATH h, work_dir] @ command
      in if check_call h log argv then (Inr (), log @ [argv])
         else (Inl (CalledProcessError argv), log @ [argv]))"

definition CONVERT_OPTIONS :: "string list" where
  "CONVERT_OPTIONS =
     [''-resize'', ''2365x3335'', ''-gravity'', ''center'', ''-background'', ''white'',
      ''-extent'', ''2490x3510'', ''-units'', ''PixelsPerInch'', ''-density'', ''300x300'']"

fun convert :: "host \<Rightarrow> converter \<Rightarrow> string \<Rightarrow> string \<Rightarrow> calls \<Rightarrow> (error + string) \<times> calls" where
  "convert h ImageConverter work_dir input_file log =
     (let out = path_join work_dir ''out.pdf''
      in case run_in_sandbox h work_dir
                ([''convert'', input_file] @ CONVERT_OPTIONS @ [out]) log of
           (Inl e, log') \<Rightarrow> (Inl e, log')
         | (Inr _, log') \<Rightarrow> (Inr out, log'))"
| "convert h PDFConverter work_dir input_file log =
     (let out = path_join work_dir ''final.pdf''
      in case run_in_sandbox h work_dir
                [''gs'', ''-sDEVICE=pdfwrite'', ''-dNOPAUSE'', ''-dBATCH'', ''-dSAFER'',
                 ''-dCompatibilityLevel=1.4'', ''-sOutputFile='' @ out, input_file] log of
           (Inl e, log') \<Rightarrow> (Inl e, log')
         | (Inr _, log') \<Rightarrow> (Inr out, log'))"
| "convert h DocConverter work_dir input_file log =
     (let out = path_join work_dir ''out.pdf''
      in case run_in_sandbox h work_dir [''unoconv'', ''-o'', out, input_file] log of
           (Inl e, log') \<Rightarrow> (Inl e, log')
         | (Inr _, log') \<Rightarrow> (Inr out, log'))"

section \<open>The orchestrator\<close>

text \<open>The \<open>for conv_class in pipeline\<close> loop; an exception of a stage ends it.\<close>

fun run_pipeline :: "host \<Rightarrow> string \<Rightarrow> converter list \<Rightarrow> string \<Rightarrow> calls
    \<Rightarrow> (error + string) \<times> calls" where
  "run_pipeline h work_dir [] file log = (Inr file, log)"
| "run_pipeline h work_dir (conv_class # pipeline) file log =
     (case convert h conv_class work_dir file log of
        (Inl e, log') \<Rightarrow> (Inl e, log')
      | (Inr file', log') \<Rightarrow> run_pipeline h work_dir pipeline file' log')"

text \<open>\<open>out_types: Union[str, List[str]]\<close>.\<close>

datatype out_types_arg = Str string | StrList "string list"

definition auto_convert :: "host \<Rightarrow> string \<Rightarrow> out_types_arg \<Rightarrow> string \<Rightarrow> calls
    \<Rightarrow> ((error + string) \<times> calls) option" where
  "auto_convert h input_file out_types work_dir log =
     (let out_types1 = (case out_types of Str s \<Rightarrow> [s] | StrList l \<Rightarrow> l);
          out_types2 = set out_types1
      in case from_file h input_file of
           None \<Rightarrow> Some (Inl (MagicException input_file), log)
         | Some input_type \<Rightarrow>
             if input_type \<in> out_types2 then Some (Inr input_type, log)
             else (case get_converter_chain (CONVERTERS h) input_type out_types2 of
                     None \<Rightarrow> None
                   | Some (Inl e) \<Rightarrow> Some (Inl e, log)
                   | Some (Inr pipeline) \<Rightarrow>
                       Some (run_pipeline h work_dir pipeline input_file log)))"

section \<open>Specification vocabulary\<close>

text \<open>
  A chain of converters starting from content type \<open>t\<close> is valid when its first stage
  accepts \<open>t\<close> and every later stage accepts the output type of the stage before it.
\<close>

fun valid_chain :: "string \<Rightarrow> converter list \<Rightarrow> bool" where
  "valid_chain t [] = True"
| "valid_chain t (c # cs) = (t \<in> set (supported_types c) \<and> valid_chain (output_type c) cs)"

text \<open>The same, read off an index from content types to the converters that accept them.\<close>

fun linked :: "(string \<Rightarrow> converter list) \<Rightarrow> string \<Rightarrow> converter list \<Rightarrow> bool" where
  "linked cft t [] = True"
| "linked cft t (c # cs) = (c \<in> set (cft t) \<and> linked cft (output_type c) cs)"

definition reverse_ok :: "(string \<Rightarrow> converter list) \<Rightarrow> string \<Rightarrow> reverse_map \<Rightarrow> bool" where
  "reverse_ok cft T rv \<longleftrightarrow>
     distinct (map fst rv) \<and>
     (\<forall>i < length rv. case rv ! i of (u, v, c) \<Rightarrow>
        c \<in> set (cft v) \<and> output_type c = u \<and> (v = T \<or> v \<in> fst ` set (take i rv)))"

text \<open>
  The three content-type levels of the declared classes: every class maps a type to a
  type of a strictly higher level.
\<close>

definition level :: "string \<Rightarrow> nat" where
  "level t = (if t = ''gutenberg/pdf'' then 2 else if t = ''application/pdf'' then 1 else 0)"

text \<open>The set \<open>auto_convert\<close> makes of its \<open>out_types\<close> argument.\<close>

definition accepted :: "out_types_arg \<Rightarrow> string set" where
  "accepted out_types = (case out_types of Str s \<Rightarrow> {s} | StrList l \<Rightarrow> set l)"





text \<open>Hosts used for the concrete runs below.\<close>

definition host_all :: host where
  "host_all = \<lparr> which = (\<lambda>n. Some (''/usr/bin/'' @ n)),
                from_file = (\<lambda>f. if f = ''/tmp/print/doc.pdf'' then Some ''application/pdf''
                                  else if f = ''/tmp/print/photo.jpg'' then Some ''image/jpeg'' else None),
                check_call = (\<lambda>_ _. True),
                BASE_DIR = ''/srv/gutenberg'' \<rparr>"

definition host_gs :: host where
  "host_gs = \<lparr> which = (\<lambda>n. if n = ''gs'' then Some ''/usr/bin/gs'' else None),
                from_file = (\<lambda>f. if f = ''/tmp/print/doc.pdf'' then Some ''application/pdf''
                                  else if f = ''/tmp/print/photo.jpg'' then Some ''image/jpeg'' else None),
                check_call = (\<lambda>_ _. True),
                BASE_DIR = ''/srv/gutenberg'' \<rparr>"



section \<open>The traversal and its predecessor map\<close>

lemma bfs_while_Nil: "bfs_while cft S rv [] = rv"
  by (subst bfs_while.simps) simp

lemma distinct_supported_types: "distinct (supported_types c)"
  by (cases c) simp_all

lemma fold_append_conv:
  "distinct ms \<Longrightarrow>
   fold (\<lambda>mime d. d(mime := d mime @ [conv])) ms d
     = (\<lambda>t. if t \<in> set ms then d t @ [conv] else d t)"
  by (induction ms arbitrary: d) (auto simp: fun_eq_iff)

lemma fold_converters:
  "fold (\<lambda>conv d. fold (\<lambda>mime d. d(mime := d mime @ [conv])) (supported_types conv) d) convs d t
     = d t @ filter (\<lambda>c. t \<in> set (supported_types c)) convs"
  by (induction convs arbitrary: d) (simp_all add: fold_append_conv distinct_supported_types)

lemma converters_for_type_eq:
  "converters_for_type convs t = filter (\<lambda>c. t \<in> set (supported_types c)) convs"
  by (simp add: converters_for_type_def fold_converters)

lemma linked_snoc:
  "linked cft t (p @ [c]) \<longleftrightarrow>
     linked cft t p \<and> c \<in> set (cft (if p = [] then t else output_type (last p)))"
  by (induction p arbitrary: t) auto

lemma reverse_ok_Nil: "reverse_ok cft T []"
  by (simp add: reverse_ok_def)

lemma reverse_ok_snoc:
  assumes "reverse_ok cft T rv" and "u \<notin> fst ` set rv" and "c \<in> set (cft v)"
    and "output_type c = u" and "v = T \<or> v \<in> fst ` set rv"
  shows "reverse_ok cft T (rv @ [(u, v, c)])"
proof -
  have "distinct (map fst (rv @ [(u, v, c)]))"
    using assms(1,2) by (simp add: reverse_ok_def)
  moreover have "case (rv @ [(u, v, c)]) ! i of (u', v', c') \<Rightarrow>
        c' \<in> set (cft v') \<and> output_type c' = u'
        \<and> (v' = T \<or> v' \<in> fst ` set (take i (rv @ [(u, v, c)])))"
    if "i < length (rv @ [(u, v, c)])" for i
  proof (cases "i < length rv")
    case True
    with assms(1) show ?thesis
      by (simp add: reverse_ok_def nth_append)
  next
    case False
    with that have "i = length rv" by simp
    with assms(3,4,5) show ?thesis by simp
  qed
  ultimately show ?thesis
    unfolding reverse_ok_def by blast
qed

lemma bfs_for_inv:
  assumes "bfs_for S v cs rv q = (d, rv', q')"
    and "reverse_ok cft T rv" and "set cs \<subseteq> set (cft v)"
    and "v = T \<or> v \<in> fst ` set rv"
    and "set q \<subseteq> insert T (fst ` set rv)"
    and "fst ` set rv \<inter> S = {}"
  shows "reverse_ok cft T rv' \<and> set q' \<subseteq> insert T (fst ` set rv')
         \<and> fst ` set (butlast rv') \<inter> S = {}
         \<and> (\<not> d \<longrightarrow> fst ` set rv' \<inter> S = {})"
  using assms
proof (induction cs arbitrary: rv q)
  case Nil
  then show ?case by (auto dest: in_set_butlastD)
next
  case (Cons c cs)
  let ?u = "output_type c"
  show ?case
  proof (cases "map_of rv ?u = None")
    case False
    then have inkeys: "?u \<in> fst ` set rv"
      by (simp add: map_of_eq_None_iff)
    with Cons.prems(6) have "?u \<notin> S" by auto
    with False Cons.prems(1) have "bfs_for S v cs rv q = (d, rv', q')"
      by (auto simp: Let_def)
    from Cons.IH [OF this Cons.prems(2)] Cons.prems(3-6) show ?thesis by simp
  next
    case True
    then have notin: "?u \<notin> fst ` set rv"
      by (simp add: map_of_eq_None_iff)
    let ?rv = "rv @ [(?u, v, c)]"
    have ok: "reverse_ok cft T ?rv"
      using reverse_ok_snoc [OF Cons.prems(2) notin _ refl Cons.prems(4)] Cons.prems(3)
      by simp
    have q: "set (q @ [?u]) \<subseteq> insert T (fst ` set ?rv)"
      using Cons.prems(5) by auto
    show ?thesis
    proof (cases "?u \<in> S")
      case True
      with \<open>map_of rv ?u = None\<close> Cons.prems(1)
      have "d" "rv' = ?rv" "q' = q @ [?u]" by (simp_all add: Let_def)
      with ok q Cons.prems(6) show ?thesis by simp
    next
      case False
      with \<open>map_of rv ?u = None\<close> Cons.prems(1)
      have run: "bfs_for S v cs ?rv (q @ [?u]) = (d, rv', q')"
        by (simp add: Let_def)
      have "set cs \<subseteq> set (cft v)" using Cons.prems(3) by simp
      moreover have "v = T \<or> v \<in> fst ` set ?rv" using Cons.prems(4) by auto
      moreover have "fst ` set ?rv \<inter> S = {}" using Cons.prems(6) False by auto
      ultimately show ?thesis
        using Cons.IH [OF run ok _ _ q] by blast
    qed
  qed
qed

lemma bfs_while_inv:
  assumes "reverse_ok cft T rv" and "set q \<subseteq> insert T (fst ` set rv)"
    and "fst ` set rv \<inter> S = {}"
  shows "reverse_ok cft T (bfs_while cft S rv q)
         \<and> fst ` set (butlast (bfs_while cft S rv q)) \<inter> S = {}"
  using assms
proof (induction cft S rv q rule: bfs_while.induct)
  case (1 cft S rv q)
  show ?case
  proof (cases "q = []")
    case True
    with "1.prems" show ?thesis by (auto simp: bfs_while_Nil dest: in_set_butlastD)
  next
    case False
    obtain d rv' q' where run:
      "bfs_for S (last q) (cft (last q)) rv (butlast q) = (d, rv', q')"
      by (metis prod_cases3)
    have lastq: "last q = T \<or> last q \<in> fst ` set rv"
      using False "1.prems"(2) last_in_set by fastforce
    have bl: "set (butlast q) \<subseteq> insert T (fst ` set rv)"
      using "1.prems"(2) by (auto dest: in_set_butlastD)
    from bfs_for_inv [OF run "1.prems"(1) subset_refl lastq bl "1.prems"(3)]
    have inv: "reverse_ok cft T rv'" "set q' \<subseteq> insert T (fst ` set rv')"
      "fst ` set (butlast rv') \<inter> S = {}" "\<not> d \<longrightarrow> fst ` set rv' \<inter> S = {}"
      by simp_all
    show ?thesis
    proof (cases d)
      case True
      with False run inv show ?thesis by (subst bfs_while.simps, subst bfs_while.simps) simp
    next
      case False
      with inv have "fst ` set rv' \<inter> S = {}" by simp
      from "1.IH" [OF \<open>q \<noteq> []\<close> run [symmetric] refl False inv(1,2) this]
      show ?thesis using \<open>q \<noteq> []\<close> run False
        by (subst bfs_while.simps, subst bfs_while.simps) simp
    qed
  qed
qed

lemma reverse_okD:
  assumes "reverse_ok cft T rv" and "i < length rv" and "rv ! i = (u, v, c)"
  shows "c \<in> set (cft v) \<and> output_type c = u \<and> (v = T \<or> v \<in> fst ` set (take i rv))"
proof -
  from assms(1) have "\<forall>i < length rv. case rv ! i of (u, v, c) \<Rightarrow>
        c \<in> set (cft v) \<and> output_type c = u \<and> (v = T \<or> v \<in> fst ` set (take i rv))"
    by (simp add: reverse_ok_def)
  then have "i < length rv \<longrightarrow> (case rv ! i of (u, v, c) \<Rightarrow>
        c \<in> set (cft v) \<and> output_type c = u \<and> (v = T \<or> v \<in> fst ` set (take i rv)))"
    by (rule spec)
  with assms(2,3) show ?thesis by simp
qed

lemma chain_while_reaches:
  assumes "reverse_ok cft T rv" and "i < length rv"
  shows "\<exists>p. chain_while rv T (fst (rv ! i)) acc = Some (Inr (p @ acc))
             \<and> linked cft T p
             \<and> (if p = [] then fst (rv ! i) = T else output_type (last p) = fst (rv ! i))
             \<and> output_type ` set (butlast p) \<subseteq> fst ` set (take i rv)"
  using assms(2)
proof (induction i arbitrary: acc rule: less_induct)
  case (less i)
  obtain u v c where e: "rv ! i = (u, v, c)"
    by (metis prod_cases3)
  show ?case
  proof (cases "u = T")
    case True
    have "chain_while rv T T acc = Some (Inr ([] @ acc))"
      by (subst chain_while.simps) simp
    with True e show ?thesis
      by (intro exI [of _ "[]"]) simp
  next
    case False
    have mem: "(u, v, c) \<in> set rv" using e less.prems nth_mem by metis
    have dist: "distinct (map fst rv)" using assms(1) by (simp add: reverse_ok_def)
    have look: "map_of rv u = Some (v, c)"
      by (rule map_of_is_SomeI [OF dist mem])
    have step: "chain_while rv T u acc = chain_while rv T v (c # acc)"
      using False look by (subst chain_while.simps) simp
    from reverse_okD [OF assms(1) less.prems e]
    have c: "c \<in> set (cft v)" and out: "output_type c = u"
      and pred: "v = T \<or> v \<in> fst ` set (take i rv)"
      by simp_all
    show ?thesis
    proof (cases "v = T")
      case True
      have "chain_while rv T T (c # acc) = Some (Inr ([c] @ acc))"
        by (subst chain_while.simps) simp
      with step e c out True show ?thesis
        by (intro exI [of _ "[c]"]) simp
    next
      case False
      with pred have "v \<in> fst ` set (take i rv)" by simp
      then obtain j where j: "j < i" "fst (rv ! j) = v"
        using less.prems by (auto simp: in_set_conv_nth)
      have jlen: "j < length rv" using j(1) less.prems by simp
      from less.IH [OF j(1) jlen, of "c # acc"]
      obtain p where p: "chain_while rv T (fst (rv ! j)) (c # acc) = Some (Inr (p @ c # acc))"
        "linked cft T p"
        "if p = [] then fst (rv ! j) = T else output_type (last p) = fst (rv ! j)"
        "output_type ` set (butlast p) \<subseteq> fst ` set (take j rv)"
        by blast
      have "p \<noteq> []" using p(3) j(2) False by (cases "p = []") simp_all
      then obtain ys y where ys: "p = ys @ [y]"
        by (cases p rule: rev_cases) simp_all
      with p(3) j(2) have y: "output_type y = v" by simp
      have lastp: "output_type (last p) = v"
        using p(3) j(2) \<open>p \<noteq> []\<close> by simp
      have "rv ! j \<in> set (take i rv)"
        using j(1) less.prems by (auto simp: in_set_conv_nth intro!: exI [of _ j])
      then have vin: "v \<in> fst ` set (take i rv)"
        using j(2) by force
      have "set (take j rv) \<subseteq> set (take i rv)"
        using j(1) by (simp add: set_take_subset_set_take)
      with p(4) ys have "output_type ` set ys \<subseteq> fst ` set (take i rv)"
        by auto
      with vin y ys have mids: "output_type ` set p \<subseteq> fst ` set (take i rv)"
        by simp
      have "linked cft T (p @ [c])"
        using p(2) \<open>p \<noteq> []\<close> lastp c by (simp add: linked_snoc)
      moreover have "chain_while rv T (fst (rv ! i)) acc = Some (Inr ((p @ [c]) @ acc))"
        using step p(1) e j(2) by simp
      ultimately show ?thesis
        using e out mids by (intro exI [of _ "p @ [c]"]) simp
    qed
  qed
qed

lemma filter_only_last:
  assumes "set (butlast xs) \<inter> S = {}"
  shows "filter (\<lambda>u. u \<in> S) xs = [] \<or> (xs \<noteq> [] \<and> filter (\<lambda>u. u \<in> S) xs = [last xs])"
proof (cases xs rule: rev_cases)
  case Nil
  then show ?thesis by simp
next
  case (snoc ys y)
  with assms have "filter (\<lambda>u. u \<in> S) ys = []"
    by (auto simp: filter_empty_conv)
  with snoc show ?thesis by simp
qed

lemma intersect_at_most_one:
  "length (filter (\<lambda>u. u \<in> S)
      (map fst (bfs_while (converters_for_type convs) S [] [T]))) \<le> 1"
proof -
  let ?rv = "bfs_while (converters_for_type convs) S [] [T]"
  have "fst ` set (butlast ?rv) \<inter> S = {}"
    using bfs_while_inv [OF reverse_ok_Nil, of "[T]" T S "converters_for_type convs"] by simp
  then have "set (butlast (map fst ?rv)) \<inter> S = {}"
    by (simp add: map_butlast [symmetric])
  from filter_only_last [OF this] show ?thesis
    by (auto simp del: filter_map length_filter_map)
qed

lemma get_converter_chain_cases:
  "get_converter_chain convs T S = Some (Inl (NoConverterAvailableError T S))
   \<or> (\<exists>p. get_converter_chain convs T S = Some (Inr p)
          \<and> linked (converters_for_type convs) T p
          \<and> (if p = [] then T \<in> S else output_type (last p) \<in> S)
          \<and> output_type ` set (butlast p) \<inter> S = {}
          \<and> (p = [] \<longrightarrow> T \<in> fst ` set (bfs_while (converters_for_type convs) S [] [T])))"
proof -
  let ?cft = "converters_for_type convs"
  let ?rv = "bfs_while ?cft S [] [T]"
  let ?is = "filter (\<lambda>u. u \<in> S) (map fst ?rv)"
  have inv: "reverse_ok ?cft T ?rv" "fst ` set (butlast ?rv) \<inter> S = {}"
    using bfs_while_inv [OF reverse_ok_Nil, of "[T]" T S ?cft] by simp_all
  from inv(2) have "set (butlast (map fst ?rv)) \<inter> S = {}"
    by (simp add: map_butlast [symmetric])
  from filter_only_last [OF this]
  consider "?is = []" | "?rv \<noteq> []" "?is = [fst (last ?rv)]"
    by (auto simp: last_map)
  then show ?thesis
  proof cases
    case 1
    then show ?thesis by (simp add: get_converter_chain_def Let_def)
  next
    case 2
    let ?i = "length ?rv - 1"
    have i: "?i < length ?rv" using 2(1) by simp
    have key: "fst (?rv ! ?i) = fst (last ?rv)"
      using 2(1) by (simp add: last_conv_nth)
    have "fst (last ?rv) \<in> set ?is" using 2(2) by simp
    then have inS: "fst (last ?rv) \<in> S" by simp
    from chain_while_reaches [OF inv(1) i, of "[]"]
    obtain p where p0: "chain_while ?rv T (fst (?rv ! ?i)) [] = Some (Inr (p @ []))"
      "linked ?cft T p"
      "if p = [] then fst (?rv ! ?i) = T else output_type (last p) = fst (?rv ! ?i)"
      "output_type ` set (butlast p) \<subseteq> fst ` set (take ?i ?rv)"
      by blast
    from p0(1) key have p1: "chain_while ?rv T (fst (last ?rv)) [] = Some (Inr p)"
      by simp
    have p3: "if p = [] then fst (last ?rv) = T else output_type (last p) = fst (last ?rv)"
      using p0(3) unfolding key .
    note p = p1 p0(2) p3 p0(4)
    have "take ?i ?rv = butlast ?rv" by (simp add: butlast_conv_take)
    with p(4) inv(2) have mids: "output_type ` set (butlast p) \<inter> S = {}" by auto
    have "get_converter_chain convs T S = Some (Inr p)"
      using 2(2) p(1) by (simp add: get_converter_chain_def Let_def)
    moreover have "if p = [] then T \<in> S else output_type (last p) \<in> S"
      using p(3) inS by (auto split: if_splits)
    moreover have "p = [] \<longrightarrow> T \<in> fst ` set ?rv"
    proof
      assume "p = []"
      with p(3) have "fst (last ?rv) = T" by simp
      moreover have "last ?rv \<in> set ?rv" using 2(1) by simp
      ultimately show "T \<in> fst ` set ?rv" by force
    qed
    ultimately show ?thesis using p(2) mids by blast
  qed
qed

section \<open>Chains over the declared classes\<close>

lemma linked_converters_for_type:
  "linked (converters_for_type convs) t p \<longleftrightarrow> valid_chain t p \<and> set p \<subseteq> set convs"
  by (induction p arbitrary: t) (auto simp: converters_for_type_eq)

lemma level_step: "t \<in> set (supported_types c) \<Longrightarrow> level t < level (output_type c)"
  by (cases c) (auto simp: level_def)

lemma valid_chain_level:
  "valid_chain t p \<Longrightarrow> p \<noteq> [] \<Longrightarrow> level t < level (output_type (last p))"
proof (induction p arbitrary: t)
  case Nil
  then show ?case by simp
next
  case (Cons c cs)
  show ?case
  proof (cases "cs = []")
    case True
    with Cons.prems show ?thesis by (simp add: level_step)
  next
    case False
    with Cons.prems have "level (output_type c) < level (output_type (last cs))"
      by (intro Cons.IH) simp_all
    moreover have "level t < level (output_type c)"
      using Cons.prems by (simp add: level_step)
    ultimately show ?thesis using False by simp
  qed
qed

lemma accept_unique:
  "t \<in> set (supported_types c) \<Longrightarrow> t \<in> set (supported_types c') \<Longrightarrow> c = c'"
  by (cases c; cases c') auto

lemma valid_chain_take:
  "valid_chain t p \<Longrightarrow> valid_chain t q \<Longrightarrow> length q \<le> length p \<Longrightarrow> q = take (length q) p"
proof (induction q arbitrary: p t)
  case Nil
  then show ?case by simp
next
  case (Cons c cs)
  then obtain d ds where p: "p = d # ds" by (cases p) auto
  with Cons.prems have "c = d" by (auto dest: accept_unique)
  moreover from Cons.prems p \<open>c = d\<close> have "cs = take (length cs) ds"
    by (intro Cons.IH [of "output_type c"]) simp_all
  ultimately show ?case using p by simp
qed

lemma valid_chain_nth:
  "valid_chain t p \<Longrightarrow> p \<noteq> [] \<Longrightarrow>
   t \<in> set (supported_types (hd p)) \<and>
   (\<forall>i. Suc i < length p \<longrightarrow> output_type (p ! i) \<in> set (supported_types (p ! Suc i)))"
proof (induction p arbitrary: t)
  case Nil
  then show ?case by simp
next
  case (Cons c cs)
  show ?case
  proof (cases "cs = []")
    case True
    with Cons.prems show ?thesis by simp
  next
    case False
    with Cons.prems
    have ih: "output_type c \<in> set (supported_types (hd cs))"
      "\<forall>i. Suc i < length cs \<longrightarrow> output_type (cs ! i) \<in> set (supported_types (cs ! Suc i))"
      using Cons.IH [of "output_type c"] by simp_all
    have "output_type ((c # cs) ! i) \<in> set (supported_types ((c # cs) ! Suc i))"
      if "Suc i < length (c # cs)" for i
    proof (cases i)
      case 0
      with ih(1) False show ?thesis by (simp add: hd_conv_nth)
    next
      case (Suc j)
      with that ih(2) show ?thesis by simp
    qed
    with Cons.prems show ?thesis by simp
  qed
qed

text \<open>
  With the declared classes no key of \<open>reverse\<close> is the start type: every key is the end of a
  non-empty chain from it, and chains strictly raise the level.
\<close>

lemma key_reachable:
  assumes "reverse_ok cft T rv" and "i < length rv"
  shows "\<exists>p. p \<noteq> [] \<and> linked cft T p \<and> output_type (last p) = fst (rv ! i)"
  using assms(2)
proof (induction i rule: less_induct)
  case (less i)
  obtain u v c where e: "rv ! i = (u, v, c)"
    by (metis prod_cases3)
  from reverse_okD [OF assms(1) less.prems e]
  have c: "c \<in> set (cft v)" and out: "output_type c = u"
    and pred: "v = T \<or> v \<in> fst ` set (take i rv)"
    by simp_all
  show ?case
  proof (cases "v = T")
    case True
    with c out e show ?thesis
      by (intro exI [of _ "[c]"]) simp
  next
    case False
    with pred have "v \<in> fst ` set (take i rv)" by simp
    then obtain j where j: "j < i" "fst (rv ! j) = v"
      using less.prems by (auto simp: in_set_conv_nth)
    have jlen: "j < length rv" using j(1) less.prems by simp
    from less.IH [OF j(1) jlen] j(2)
    obtain p where p: "p \<noteq> []" "linked cft T p" "output_type (last p) = v"
      by auto
    then have "linked cft T (p @ [c])"
      using c by (simp add: linked_snoc)
    with e out show ?thesis
      by (intro exI [of _ "p @ [c]"]) simp
  qed
qed

lemma start_not_key:
  "T \<notin> fst ` set (bfs_while (converters_for_type convs) S [] [T])"
proof
  let ?cft = "converters_for_type convs"
  let ?rv = "bfs_while ?cft S [] [T]"
  assume "T \<in> fst ` set ?rv"
  then obtain i where i: "i < length ?rv" "fst (?rv ! i) = T"
    by (auto simp: in_set_conv_nth)
  have "reverse_ok ?cft T ?rv"
    using bfs_while_inv [OF reverse_ok_Nil, of "[T]" T S ?cft] by simp
  from key_reachable [OF this i(1)] i(2)
  obtain p where "p \<noteq> []" "linked ?cft T p" "output_type (last p) = T"
    by auto
  then have "level T < level T"
    using valid_chain_level [of T p] by (simp add: linked_converters_for_type)
  then show False by simp
qed

lemma get_converter_chain_result:
  "get_converter_chain convs T S = Some (Inl (NoConverterAvailableError T S))
   \<or> (\<exists>p. get_converter_chain convs T S = Some (Inr p)
          \<and> p \<noteq> [] \<and> valid_chain T p \<and> set p \<subseteq> set convs
          \<and> output_type (last p) \<in> S
          \<and> output_type ` set (butlast p) \<inter> S = {})"
proof -
  from get_converter_chain_cases [of convs T S]
  consider "get_converter_chain convs T S = Some (Inl (NoConverterAvailableError T S))"
    | p where "get_converter_chain convs T S = Some (Inr p)"
      "linked (converters_for_type convs) T p"
      "if p = [] then T \<in> S else output_type (last p) \<in> S"
      "output_type ` set (butlast p) \<inter> S = {}"
      "p = [] \<longrightarrow> T \<in> fst ` set (bfs_while (converters_for_type convs) S [] [T])"
    by blast
  then show ?thesis
  proof cases
    case 1
    then show ?thesis by simp
  next
    case 2
    from 2(5) start_not_key [of T convs S] have ne: "p \<noteq> []" by blast
    with 2(3) have "output_type (last p) \<in> S" by simp
    with 2(1,2,4) ne show ?thesis
      by (simp add: linked_converters_for_type)
  qed
qed

section \<open>Claims about pipeline resolution\<close>

lemma CONVERTERS_host_all: "CONVERTERS host_all = [ImageConverter, DocConverter, PDFConverter]"
  by (simp add: CONVERTERS_def CONVERTERS_ALL_def host_all_def binary_exists_def)

lemma CONVERTERS_host_gs: "CONVERTERS host_gs = [PDFConverter]"
  by (simp add: CONVERTERS_def CONVERTERS_ALL_def host_gs_def binary_exists_def)

lemma run_jpeg_to_gutenberg:
  "get_converter_chain (CONVERTERS host_all) ''image/jpeg'' {''gutenberg/pdf''}
     = Some (Inr [ImageConverter, PDFConverter])"
  by code_simp

text \<open>
  Claim C4. Every pipeline returned by \<open>get_converter_chain\<close> is a valid chain: its first
  stage accepts the input type, every later stage accepts the output type of the stage
  before it, and the output type of the last stage is one of the requested output types.
  The pipeline is never empty.
\<close>

theorem pipeline_is_valid_chain:
  assumes "get_converter_chain (CONVERTERS h) input_type output_types = Some (Inr pipeline)"
  shows "pipeline \<noteq> []
    \<and> input_type \<in> set (supported_types (hd pipeline))
    \<and> (\<forall>i. Suc i < length pipeline \<longrightarrow>
          output_type (pipeline ! i) \<in> set (supported_types (pipeline ! Suc i)))
    \<and> output_type (last pipeline) \<in> output_types"
proof -
  from get_converter_chain_result [of "CONVERTERS h" input_type output_types] assms
  have "pipeline \<noteq> []" "valid_chain input_type pipeline"
    "output_type (last pipeline) \<in> output_types"
    by auto
  with valid_chain_nth [of input_type pipeline] show ?thesis by simp
qed

theorem pipeline_is_valid_chain_witness:
  "get_converter_chain (CONVERTERS host_all) ''image/jpeg'' {''gutenberg/pdf''}
     = Some (Inr [ImageConverter, PDFConverter])
   \<and> ''image/jpeg'' \<in> set (supported_types (hd [ImageConverter, PDFConverter]))
   \<and> output_type ([ImageConverter, PDFConverter] ! 0)
        \<in> set (supported_types ([ImageConverter, PDFConverter] ! Suc 0))
   \<and> output_type (last [ImageConverter, PDFConverter]) \<in> {''gutenberg/pdf''}"
  using pipeline_is_valid_chain [OF run_jpeg_to_gutenberg] run_jpeg_to_gutenberg
  by simp

text \<open>
  Claim C2, as stated, fails when the input type is itself accepted: called with
  \<open>image/jpeg\<close> and the accepted set \<open>{image/jpeg, application/pdf}\<close> the resolver returns
  the one-stage pipeline, although the empty chain already ends in an accepted type.
\<close>

theorem empty_chain_is_shorter_counterexample:
  "get_converter_chain (CONVERTERS host_all) ''image/jpeg'' {''image/jpeg'', ''application/pdf''}
     = Some (Inr [ImageConverter])
   \<and> valid_chain ''image/jpeg'' []
   \<and> set [] \<subseteq> set (CONVERTERS host_all)
   \<and> ''image/jpeg'' \<in> {''image/jpeg'', ''application/pdf''}
   \<and> length ([] :: converter list) < length [ImageConverter]"
proof -
  have "get_converter_chain (CONVERTERS host_all) ''image/jpeg''
      {''image/jpeg'', ''application/pdf''} = Some (Inr [ImageConverter])"
    by code_simp
  then show ?thesis by simp
qed

text \<open>
  Claim C2, amended. For every input type and accepted set for which \<open>get_converter_chain\<close>
  returns a pipeline, no non-empty chain of available converters that ends in an accepted
  type has fewer stages than the pipeline. In particular the pipeline is minimal whenever
  the input type is not itself accepted.
\<close>

theorem pipeline_minimal_among_nonempty_chains:
  assumes "get_converter_chain (CONVERTERS h) T S = Some (Inr p)"
    and "q \<noteq> []" and "valid_chain T q" and "set q \<subseteq> set (CONVERTERS h)"
    and "output_type (last q) \<in> S"
  shows "length p \<le> length q"
proof (rule ccontr)
  assume "\<not> length p \<le> length q"
  then have less: "length q < length p" by simp
  from get_converter_chain_result [of "CONVERTERS h" T S] assms(1)
  have p: "valid_chain T p" "output_type ` set (butlast p) \<inter> S = {}"
    by auto
  from valid_chain_take [OF p(1) assms(3)] less
  have q: "q = take (length q) p" by simp
  have idx: "length q - 1 < length (butlast p)"
    using less assms(2) by (cases q) simp_all
  have "last q = q ! (length q - 1)"
    using assms(2) by (simp add: last_conv_nth)
  also have "\<dots> = p ! (length q - 1)"
    using assms(2) by (subst q) simp
  also have "\<dots> = butlast p ! (length q - 1)"
    using nth_butlast [OF idx] by simp
  finally have "last q = butlast p ! (length q - 1)" .
  with idx have "last q \<in> set (butlast p)"
    by (metis nth_mem)
  with assms(5) p(2) show False by blast
qed

theorem pipeline_minimal_among_nonempty_chains_witness:
  "get_converter_chain (CONVERTERS host_all) ''image/jpeg'' {''gutenberg/pdf''}
     = Some (Inr [ImageConverter, PDFConverter])
   \<and> [ImageConverter, PDFConverter] \<noteq> []
   \<and> valid_chain ''image/jpeg'' [ImageConverter, PDFConverter]
   \<and> set [ImageConverter, PDFConverter] \<subseteq> set (CONVERTERS host_all)
   \<and> output_type (last [ImageConverter, PDFConverter]) \<in> {''gutenberg/pdf''}
   \<and> length [ImageConverter, PDFConverter] \<le> length [ImageConverter, PDFConverter]"
proof -
  have a: "[ImageConverter, PDFConverter] \<noteq> []" by simp
  have b: "valid_chain ''image/jpeg'' [ImageConverter, PDFConverter]" by simp
  have c: "set [ImageConverter, PDFConverter] \<subseteq> set (CONVERTERS host_all)"
    by (simp add: CONVERTERS_host_all)
  have d: "output_type (last [ImageConverter, PDFConverter]) \<in> {''gutenberg/pdf''}" by simp
  from pipeline_minimal_among_nonempty_chains [OF run_jpeg_to_gutenberg a b c d]
    run_jpeg_to_gutenberg a b c d
  show ?thesis by blast
qed

lemma run_pdf_to_gutenberg_gs:
  "get_converter_chain (CONVERTERS host_gs) ''application/pdf'' {''gutenberg/pdf''}
     = Some (Inr [PDFConverter])"
  by code_simp

lemma pdf_only_pdf: "''application/pdf'' \<in> set (supported_types c) \<Longrightarrow> c = PDFConverter"
  by (cases c) simp_all

lemma gutenberg_not_accepted: "''gutenberg/pdf'' \<notin> set (supported_types c)"
  by (cases c) simp_all

text \<open>
  Claim C3. When no non-empty chain of available converters leads from the input type to a
  requested output type, \<open>get_converter_chain\<close> raises \<open>NoConverterAvailableError\<close>, and the
  error carries the input type and the whole requested set. This holds in particular when
  no available converter accepts the input type. The hypothesis only rules out non-empty
  chains, so the statement also covers an input type that is itself requested.
\<close>

theorem no_chain_raises:
  "(\<not> (\<exists>q. q \<noteq> [] \<and> valid_chain T q \<and> set q \<subseteq> set (CONVERTERS h)
            \<and> output_type (last q) \<in> S)
      \<longrightarrow> get_converter_chain (CONVERTERS h) T S = Some (Inl (NoConverterAvailableError T S)))
   \<and> ((\<forall>c \<in> set (CONVERTERS h). T \<notin> set (supported_types c))
      \<longrightarrow> get_converter_chain (CONVERTERS h) T S = Some (Inl (NoConverterAvailableError T S)))"
proof (intro conjI impI)
  assume no: "\<not> (\<exists>q. q \<noteq> [] \<and> valid_chain T q \<and> set q \<subseteq> set (CONVERTERS h)
            \<and> output_type (last q) \<in> S)"
  with get_converter_chain_result [of "CONVERTERS h" T S]
  show "get_converter_chain (CONVERTERS h) T S = Some (Inl (NoConverterAvailableError T S))"
    by blast
next
  assume none: "\<forall>c \<in> set (CONVERTERS h). T \<notin> set (supported_types c)"
  have "\<not> (q \<noteq> [] \<and> valid_chain T q \<and> set q \<subseteq> set (CONVERTERS h))" for q
  proof (cases q)
    case Nil
    then show ?thesis by simp
  next
    case (Cons c cs)
    with none show ?thesis by auto
  qed
  with get_converter_chain_result [of "CONVERTERS h" T S]
  show "get_converter_chain (CONVERTERS h) T S = Some (Inl (NoConverterAvailableError T S))"
    by blast
qed

theorem no_chain_raises_witness:
  "\<not> (\<exists>q. q \<noteq> [] \<and> valid_chain ''image/jpeg'' q \<and> set q \<subseteq> set (CONVERTERS host_gs)
          \<and> output_type (last q) \<in> {''gutenberg/pdf''})
   \<and> \<not> (\<exists>c \<in> set (CONVERTERS host_gs). ''image/jpeg'' \<in> set (supported_types c))
   \<and> get_converter_chain (CONVERTERS host_gs) ''image/jpeg'' {''gutenberg/pdf''}
       = Some (Inl (NoConverterAvailableError ''image/jpeg'' {''gutenberg/pdf''}))"
proof -
  have none: "\<forall>c \<in> set (CONVERTERS host_gs). ''image/jpeg'' \<notin> set (supported_types c)"
    by (simp add: CONVERTERS_host_gs)
  have "\<not> (q \<noteq> [] \<and> valid_chain ''image/jpeg'' q \<and> set q \<subseteq> set (CONVERTERS host_gs)
          \<and> output_type (last q) \<in> {''gutenberg/pdf''})" for q
  proof (cases q)
    case Nil
    then show ?thesis by simp
  next
    case (Cons c cs)
    with none show ?thesis by auto
  qed
  then have no: "\<not> (\<exists>q. q \<noteq> [] \<and> valid_chain ''image/jpeg'' q
      \<and> set q \<subseteq> set (CONVERTERS host_gs) \<and> output_type (last q) \<in> {''gutenberg/pdf''})"
    by blast
  from no_chain_raises [of "''image/jpeg''" host_gs "{''gutenberg/pdf''}"] no none
  show ?thesis by blast
qed

text \<open>
  Claim C7. A converter whose \<open>is_available\<close> probe fails is not in \<open>CONVERTERS\<close>, and no
  pipeline returned by \<open>get_converter_chain\<close>, for any input type and any requested set,
  contains it.
\<close>

theorem unavailable_converter_never_used:
  assumes "\<not> is_available h c"
  shows "c \<notin> set (CONVERTERS h)
    \<and> (\<forall>T S p. get_converter_chain (CONVERTERS h) T S = Some (Inr p) \<longrightarrow> c \<notin> set p)"
proof -
  from assms have out: "c \<notin> set (CONVERTERS h)"
    by (simp add: CONVERTERS_def)
  have "c \<notin> set p" if "get_converter_chain (CONVERTERS h) T S = Some (Inr p)" for T S p
  proof -
    from get_converter_chain_result [of "CONVERTERS h" T S] that
    have "set p \<subseteq> set (CONVERTERS h)" by auto
    with out show ?thesis by blast
  qed
  with out show ?thesis by blast
qed

theorem unavailable_converter_never_used_witness:
  "\<not> is_available host_gs ImageConverter
   \<and> ImageConverter \<notin> set (CONVERTERS host_gs)
   \<and> get_converter_chain (CONVERTERS host_gs) ''application/pdf'' {''gutenberg/pdf''}
       = Some (Inr [PDFConverter])
   \<and> ImageConverter \<notin> set [PDFConverter]"
proof -
  have na: "\<not> is_available host_gs ImageConverter"
    by (simp add: host_gs_def binary_exists_def)
  from unavailable_converter_never_used [OF na] na run_pdf_to_gutenberg_gs
  show ?thesis by simp
qed

text \<open>
  Claim C8. With \<open>ImageConverter\<close> and \<open>PDFConverter\<close> available, resolving \<open>image/jpeg\<close>
  against \<open>{application/pdf}\<close> returns exactly \<open>[ImageConverter]\<close>; the two-stage pipeline
  that ends in \<open>PDFConverter\<close> is returned only for a requested set that contains
  \<open>gutenberg/pdf\<close>.
\<close>

theorem jpeg_to_pdf_single_stage:
  assumes "is_available h ImageConverter" and "is_available h PDFConverter"
  shows "get_converter_chain (CONVERTERS h) ''image/jpeg'' {''application/pdf''}
      = Some (Inr [ImageConverter])
    \<and> (\<forall>S. get_converter_chain (CONVERTERS h) ''image/jpeg'' S
              = Some (Inr [ImageConverter, PDFConverter])
          \<longrightarrow> ''gutenberg/pdf'' \<in> S)"
proof -
  have a: "get_converter_chain [ImageConverter, DocConverter, PDFConverter]
      ''image/jpeg'' {''application/pdf''} = Some (Inr [ImageConverter])"
    by code_simp
  have b: "get_converter_chain [ImageConverter, PDFConverter]
      ''image/jpeg'' {''application/pdf''} = Some (Inr [ImageConverter])"
    by code_simp
  have "CONVERTERS h = [ImageConverter, DocConverter, PDFConverter]
      \<or> CONVERTERS h = [ImageConverter, PDFConverter]"
    using assms by (simp add: CONVERTERS_def CONVERTERS_ALL_def)
  with a b have first: "get_converter_chain (CONVERTERS h) ''image/jpeg'' {''application/pdf''}
      = Some (Inr [ImageConverter])"
    by auto
  have "''gutenberg/pdf'' \<in> S"
    if "get_converter_chain (CONVERTERS h) ''image/jpeg'' S
          = Some (Inr [ImageConverter, PDFConverter])" for S
  proof -
    from get_converter_chain_result [of "CONVERTERS h" "''image/jpeg''" S] that
    have "output_type (last [ImageConverter, PDFConverter]) \<in> S" by auto
    then show ?thesis by simp
  qed
  with first show ?thesis by blast
qed

theorem jpeg_to_pdf_single_stage_witness:
  "is_available host_all ImageConverter \<and> is_available host_all PDFConverter
   \<and> get_converter_chain (CONVERTERS host_all) ''image/jpeg'' {''application/pdf''}
       = Some (Inr [ImageConverter])
   \<and> get_converter_chain (CONVERTERS host_all) ''image/jpeg'' {''gutenberg/pdf''}
       = Some (Inr [ImageConverter, PDFConverter])
   \<and> ''gutenberg/pdf'' \<in> {''gutenberg/pdf''}"
proof -
  have a: "is_available host_all ImageConverter" and b: "is_available host_all PDFConverter"
    by (simp_all add: host_all_def binary_exists_def)
  from jpeg_to_pdf_single_stage [OF a b] a b run_jpeg_to_gutenberg
  show ?thesis by simp
qed

text \<open>
  Claim C9. Called with an input type that is already requested, \<open>get_converter_chain\<close>
  never returns the empty pipeline, because \<open>reverse\<close> never has the start type as a key;
  unless some non-empty chain of available converters reaches a requested type, it raises
  \<open>NoConverterAvailableError\<close>.
\<close>

theorem direct_call_with_accepted_input:
  assumes "T \<in> S"
  shows "get_converter_chain (CONVERTERS h) T S \<noteq> Some (Inr [])
    \<and> T \<notin> fst ` set (bfs_while (converters_for_type (CONVERTERS h)) S [] [T])
    \<and> (\<not> (\<exists>q. q \<noteq> [] \<and> valid_chain T q \<and> set q \<subseteq> set (CONVERTERS h)
              \<and> output_type (last q) \<in> S)
        \<longrightarrow> get_converter_chain (CONVERTERS h) T S
              = Some (Inl (NoConverterAvailableError T S)))"
  using get_converter_chain_result [of "CONVERTERS h" T S] start_not_key [of T "CONVERTERS h" S]
  by auto

theorem direct_call_with_accepted_input_witness:
  "''application/pdf'' \<in> {''application/pdf''}
   \<and> \<not> (\<exists>q. q \<noteq> [] \<and> valid_chain ''application/pdf'' q
            \<and> set q \<subseteq> set (CONVERTERS host_all)
            \<and> output_type (last q) \<in> {''application/pdf''})
   \<and> get_converter_chain (CONVERTERS host_all) ''application/pdf'' {''application/pdf''}
       = Some (Inl (NoConverterAvailableError ''application/pdf'' {''application/pdf''}))
   \<and> get_converter_chain (CONVERTERS host_all) ''application/pdf'' {''application/pdf''}
       \<noteq> Some (Inr [])"
proof -
  have mem: "''application/pdf'' \<in> {''application/pdf''}" by simp
  have "\<not> (q \<noteq> [] \<and> valid_chain ''application/pdf'' q
            \<and> output_type (last q) \<in> {''application/pdf''})" for q
  proof (cases q)
    case Nil
    then show ?thesis by simp
  next
    case (Cons c cs)
    show ?thesis
    proof (cases cs)
      case Nil
      with Cons show ?thesis by (auto dest: pdf_only_pdf)
    next
      case (Cons d ds)
      with \<open>q = c # cs\<close> show ?thesis
        by (auto dest!: pdf_only_pdf simp: gutenberg_not_accepted)
    qed
  qed
  then have no: "\<not> (\<exists>q. q \<noteq> [] \<and> valid_chain ''application/pdf'' q
            \<and> set q \<subseteq> set (CONVERTERS host_all)
            \<and> output_type (last q) \<in> {''application/pdf''})"
    by blast
  from direct_call_with_accepted_input [OF mem, of host_all] mem no
  show ?thesis by blast
qed

section \<open>Claims about the orchestrator\<close>





text \<open>
  Claim C1 says that an input whose detected type is already accepted comes back as the
  original path, with no converter run. The run below, on a PDF file with \<open>application/pdf\<close>
  accepted, invokes no converter, but what \<open>auto_convert\<close> returns is the detected content
  type, not the path of the input file.
\<close>

theorem short_circuit_returns_content_type:
  "auto_convert host_all ''/tmp/print/doc.pdf'' (Str ''application/pdf'') ''/tmp/work'' []
     = Some (Inr ''application/pdf'', [])
   \<and> ''application/pdf'' \<noteq> ''/tmp/print/doc.pdf''"
  by code_simp




text \<open>
  Claim C6. When resolution fails, \<open>auto_convert\<close> raises the resolver's
  \<open>NoConverterAvailableError\<close> as it is and has run no converter: the list of sandbox calls
  is the one it started with.
\<close>

theorem resolution_failure_propagates:
  assumes "from_file h input_file = Some input_type"
    and "input_type \<notin> accepted out_types"
    and "get_converter_chain (CONVERTERS h) input_type (accepted out_types) = Some (Inl e)"
  shows "e = NoConverterAvailableError input_type (accepted out_types)
    \<and> auto_convert h input_file out_types work_dir log = Some (Inl e, log)"
proof -
  from get_converter_chain_result [of "CONVERTERS h" input_type "accepted out_types"] assms(3)
  have "e = NoConverterAvailableError input_type (accepted out_types)" by auto
  moreover have "auto_convert h input_file out_types work_dir log = Some (Inl e, log)"
    using assms by (cases out_types) (simp_all add: auto_convert_def accepted_def)
  ultimately show ?thesis by simp
qed

theorem resolution_failure_propagates_witness:
  "from_file host_gs ''/tmp/print/photo.jpg'' = Some ''image/jpeg''
   \<and> ''image/jpeg'' \<notin> accepted (Str ''gutenberg/pdf'')
   \<and> get_converter_chain (CONVERTERS host_gs) ''image/jpeg'' (accepted (Str ''gutenberg/pdf''))
       = Some (Inl (NoConverterAvailableError ''image/jpeg'' {''gutenberg/pdf''}))
   \<and> auto_convert host_gs ''/tmp/print/photo.jpg'' (Str ''gutenberg/pdf'') ''/tmp/work'' []
       = Some (Inl (NoConverterAvailableError ''image/jpeg'' {''gutenberg/pdf''}), [])"
proof -
  have a: "from_file host_gs ''/tmp/print/photo.jpg'' = Some ''image/jpeg''"
    by (simp add: host_gs_def)
  have b: "''image/jpeg'' \<notin> accepted (Str ''gutenberg/pdf'')"
    by (simp add: accepted_def)
  have "get_converter_chain (CONVERTERS host_gs) ''image/jpeg'' {''gutenberg/pdf''}
      = Some (Inl (NoConverterAvailableError ''image/jpeg'' {''gutenberg/pdf''}))"
    by code_simp
  then have c: "get_converter_chain (CONVERTERS host_gs) ''image/jpeg''
      (accepted (Str ''gutenberg/pdf''))
      = Some (Inl (NoConverterAvailableError ''image/jpeg'' {''gutenberg/pdf''}))"
    by (simp add: accepted_def)
  from resolution_failure_propagates [OF a b c, of "''/tmp/work''" "[]"] a b c
  show ?thesis by simp
qed

text \<open>
  Claim C10. A single content-type string \<open>s\<close> passed as \<open>out_types\<close> is treated exactly as
  the set \<open>{s}\<close>: \<open>auto_convert\<close> short-circuits exactly when the detected type is \<open>s\<close>, and
  otherwise resolves against \<open>{s}\<close> and runs the pipeline. Every list whose members form
  the set \<open>{s}\<close>, the one-element list in particular, behaves the same.
\<close>

theorem single_string_is_singleton_set:
  "auto_convert h input_file (Str s) work_dir log
     = (case from_file h input_file of
          None \<Rightarrow> Some (Inl (MagicException input_file), log)
        | Some input_type \<Rightarrow>
            if input_type = s then Some (Inr input_type, log)
            else (case get_converter_chain (CONVERTERS h) input_type {s} of
                    None \<Rightarrow> None
                  | Some (Inl e) \<Rightarrow> Some (Inl e, log)
                  | Some (Inr pipeline) \<Rightarrow>
                      Some (run_pipeline h work_dir pipeline input_file log)))
   \<and> (\<forall>l. set l = {s} \<longrightarrow>
          auto_convert h input_file (StrList l) work_dir log
            = auto_convert h input_file (Str s) work_dir log)"
  by (simp add: auto_convert_def split: option.splits)

theorem single_string_is_singleton_set_witness:
  "set [''gutenberg/pdf'', ''gutenberg/pdf''] = {''gutenberg/pdf''}
   \<and> auto_convert host_all ''/tmp/print/photo.jpg''
         (StrList [''gutenberg/pdf'', ''gutenberg/pdf'']) ''/tmp/work'' []
       = auto_convert host_all ''/tmp/print/photo.jpg'' (Str ''gutenberg/pdf'') ''/tmp/work'' []
   \<and> auto_convert host_all ''/tmp/print/photo.jpg'' (Str ''gutenberg/pdf'') ''/tmp/work'' []
       = Some (run_pipeline host_all ''/tmp/work'' [ImageConverter, PDFConverter]
                 ''/tmp/print/photo.jpg'' [])
   \<and> auto_convert host_all ''/tmp/print/photo.jpg'' (Str ''image/jpeg'') ''/tmp/work'' []
       = Some (Inr ''image/jpeg'', [])"
proof -
  have a: "set [''gutenberg/pdf'', ''gutenberg/pdf''] = {''gutenberg/pdf''}" by simp
  have b: "from_file host_all ''/tmp/print/photo.jpg'' = Some ''image/jpeg''"
    by (simp add: host_all_def)
  from single_string_is_singleton_set
         [of host_all "''/tmp/print/photo.jpg''" "''gutenberg/pdf''" "''/tmp/work''" "[]"]
       single_string_is_singleton_set
         [of host_all "''/tmp/print/photo.jpg''" "''image/jpeg''" "''/tmp/work''" "[]"]
       a b run_jpeg_to_gutenberg
  show ?thesis by simp
qed

end
